theory Spec2Isabelle
  imports Main "HOL-Library.List_Lexorder" "HOL-Library.Char_ord" "HOL-Library.Option_ord"
begin

section \<open>TermiTask: task store, filter engine and recurrence engine\<close>

text \<open>
  The development embeds \<^verbatim>\<open>database.py\<close> (class \<^verbatim>\<open>DatabaseManager\<close>),
  \<^verbatim>\<open>utils/reminders.py\<close> and the overdue post-filter of \<^verbatim>\<open>cli.py\<close>.
  The SQLite tables are lists of rows in storage (rowid) order, a Python exception is
  a value of \<open>py_error\<close>, and the wall clock \<^verbatim>\<open>datetime.now()\<close> is a parameter
  \<open>now\<close>. Strings are lists of 8-bit characters.
\<close>

subsection \<open>Exceptions\<close>

datatype py_error = ValueError | OverflowError

subsection \<open>Naive datetimes of the standard library\<close>

record datetime =
  year :: nat
  month :: nat
  day :: nat
  hour :: nat
  minute :: nat
  second :: nat
  microsecond :: nat

definition is_leap :: "nat \<Rightarrow> bool" where
  "is_leap y = (y mod 4 = 0 \<and> (y mod 100 \<noteq> 0 \<or> y mod 400 = 0))"

definition days_in_month :: "nat \<Rightarrow> nat \<Rightarrow> nat" where
  "days_in_month y m =
     (if m = 2 then (if is_leap y then 29 else 28)
      else if m = 4 \<or> m = 6 \<or> m = 9 \<or> m = 11 then 30 else 31)"

text \<open>The range check of the \<^verbatim>\<open>datetime\<close> constructor (MINYEAR = 1, MAXYEAR = 9999).\<close>

definition valid_datetime :: "datetime \<Rightarrow> bool" where
  "valid_datetime d =
     (1 \<le> year d \<and> year d \<le> 9999 \<and> 1 \<le> month d \<and> month d \<le> 12 \<and>
      1 \<le> day d \<and> day d \<le> days_in_month (year d) (month d) \<and>
      hour d < 24 \<and> minute d < 60 \<and> second d < 60 \<and> microsecond d < 1000000)"

text \<open>Naive datetimes compare field by field, most significant first.\<close>

definition dt_fields :: "datetime \<Rightarrow> nat list" where
  "dt_fields d = [year d, month d, day d, hour d, minute d, second d, microsecond d]"

definition dt_le :: "datetime \<Rightarrow> datetime \<Rightarrow> bool" where
  "dt_le a b = (dt_fields a \<le> dt_fields b)"


text \<open>\<^verbatim>\<open>d.replace(day=n)\<close>: raises ValueError when the month has no day \<open>n\<close>.\<close>

definition replace_day :: "datetime \<Rightarrow> nat \<Rightarrow> py_error + datetime" where
  "replace_day d n =
     (if 1 \<le> n \<and> n \<le> days_in_month (year d) (month d) then Inr (d\<lparr>day := n\<rparr>)
      else Inl ValueError)"

text \<open>
  \<^verbatim>\<open>d + timedelta(days=n)\<close> for \<open>n \<ge> 0\<close>: the calendar date moves forward one day
  at a time, the time of day stays; past 9999-12-31 Python raises OverflowError.
\<close>

definition next_day :: "datetime \<Rightarrow> datetime" where
  "next_day d =
     (if day d < days_in_month (year d) (month d) then d\<lparr>day := day d + 1\<rparr>
      else if month d < 12 then d\<lparr>month := month d + 1, day := 1\<rparr>
      else d\<lparr>year := year d + 1, month := 1, day := 1\<rparr>)"

fun add_days :: "datetime \<Rightarrow> nat \<Rightarrow> py_error + datetime" where
  "add_days d 0 = Inr d"
| "add_days d (Suc n) =
     (if year (next_day d) > 9999 then Inl OverflowError else add_days (next_day d) n)"

subsection \<open>\<^verbatim>\<open>utils/reminders.py\<close>: the next occurrence\<close>

text \<open>
  \<^verbatim>\<open>
  def calculate_next_occurrence(due_date, recurrence):
      if recurrence == "daily":
          return due_date + timedelta(days=1)
      elif recurrence == "weekly":
          return due_date + timedelta(weeks=1)
      elif recurrence == "monthly":
          return (due_date.replace(day=1) + timedelta(days=32)).replace(day=due_date.day)
      return due_date
  \<close>
  The recurrence is the value of the nullable \<^verbatim>\<open>recurrence\<close> column.
\<close>

definition calculate_next_occurrence :: "datetime \<Rightarrow> string option \<Rightarrow> py_error + datetime" where
  "calculate_next_occurrence due_date recurrence =
     (if recurrence = Some ''daily'' then add_days due_date 1
      else if recurrence = Some ''weekly'' then add_days due_date 7
      else if recurrence = Some ''monthly'' then
        (case replace_day due_date 1 of
           Inl e \<Rightarrow> Inl e
         | Inr first \<Rightarrow>
            (case add_days first 32 of
               Inl e \<Rightarrow> Inl e
             | Inr later \<Rightarrow> replace_day later (day due_date)))
      else Inr due_date)"

subsection \<open>The tables of \<^verbatim>\<open>database.py\<close>\<close>

text \<open>
  A row of \<^verbatim>\<open>tasks\<close> is what \<^verbatim>\<open>dict(row)\<close> gives: every column of the schema
  mapped to its text, or to \<open>None\<close> for SQL NULL.
\<close>

datatype column =
  Id | Title | Description | Due_date | Priority | Status | Tags | Recurrence |
  Created_at | Created_by | Assigned_to

type_synonym row = "column \<Rightarrow> string option"

definition all_columns :: "column list" where
  "all_columns = [Id, Title, Description, Due_date, Priority, Status, Tags, Recurrence,
     Created_at, Created_by, Assigned_to]"

record user =
  username :: string
  email :: string
  hashed_password :: string

record store =
  users :: "user list"
  tasks :: "row list"

text \<open>
  The constraints of \<^verbatim>\<open>CREATE TABLE tasks\<close>: NOT NULL on title, priority, status and
  created_by, the two CHECK clauses, and the primary key on id.
\<close>

definition row_ok :: "row \<Rightarrow> bool" where
  "row_ok r =
     (r Title \<noteq> None \<and> r Created_by \<noteq> None \<and>
      r Priority \<in> {Some ''low'', Some ''medium'', Some ''high'', Some ''critical''} \<and>
      r Status \<in> {Some ''pending'', Some ''completed''})"

definition ids :: "row list \<Rightarrow> string list" where
  "ids rs = concat (map (\<lambda>r. case r Id of None \<Rightarrow> [] | Some i \<Rightarrow> [i]) rs)"

definition pk_ok :: "row list \<Rightarrow> bool" where
  "pk_ok rs = distinct (ids rs)"

subsection \<open>SQL text matching\<close>

text \<open>
  SQLite's \<^verbatim>\<open>LIKE\<close> without ESCAPE: \<^verbatim>\<open>%\<close> matches any run of characters,
  \<^verbatim>\<open>_\<close> any single one, every other character itself, ignoring the case of
  ASCII letters. A NULL operand makes the comparison NULL, which WHERE treats as false.
\<close>

definition lower :: "char \<Rightarrow> char" where
  "lower c =
     (case map_of (zip ''ABCDEFGHIJKLMNOPQRSTUVWXYZ'' ''abcdefghijklmnopqrstuvwxyz'') c of
        None \<Rightarrow> c | Some l \<Rightarrow> l)"

fun like :: "string \<Rightarrow> string \<Rightarrow> bool" where
  "like [] [] = True"
| "like [] (c # cs) = False"
| "like (p # ps) [] = (p = CHR ''%'' \<and> like ps [])"
| "like (p # ps) (c # cs) =
     (if p = CHR ''%'' then like ps (c # cs) \<or> like (p # ps) cs
      else (p = CHR ''_'' \<or> lower p = lower c) \<and> like ps cs)"

definition col_like :: "string option \<Rightarrow> string \<Rightarrow> bool" where
  "col_like v pat = (case v of None \<Rightarrow> False | Some s \<Rightarrow> like pat s)"

definition contains_pattern :: "string \<Rightarrow> string" where
  "contains_pattern s = ''%'' @ s @ ''%''"

subsection \<open>\<^verbatim>\<open>DatabaseManager.get_tasks\<close>\<close>

text \<open>
  The filter dictionary, with the keys that occur in the repository: the five that
  \<^verbatim>\<open>get_tasks\<close> reads and \<^verbatim>\<open>recurrence\<close>, which the recurrence scan passes.
  An absent key and a \<open>None\<close> value are both \<open>None\<close>; \<^verbatim>\<open>filters.get(k)\<close> is
  truthy for a non-empty string and a non-empty list.
\<close>

record filters =
  f_username :: "string option"
  f_search :: "string option"
  f_tags :: "string list"
  f_priority :: "string option"
  f_status :: "string option"
  f_recurrence :: "bool option"

definition no_filters :: filters where
  "no_filters = \<lparr>f_username = None, f_search = None, f_tags = [], f_priority = None,
     f_status = None, f_recurrence = None\<rparr>"

definition truthy :: "string option \<Rightarrow> bool" where
  "truthy v = (case v of None \<Rightarrow> False | Some s \<Rightarrow> s \<noteq> [])"

definition tags_match :: "string list \<Rightarrow> row \<Rightarrow> bool" where
  "tags_match tgs r = list_ex (\<lambda>tag. col_like (r Tags) (contains_pattern tag)) tgs"

text \<open>
  The WHERE clause that \<^verbatim>\<open>get_tasks\<close> assembles: \<^verbatim>\<open>1=1\<close> and one conjunct for
  each truthy filter.
\<close>

definition where_clause :: "filters \<Rightarrow> row \<Rightarrow> bool" where
  "where_clause f r =
     ((if truthy (f_username f)
         then r Created_by = f_username f \<or> r Assigned_to = f_username f else True) \<and>
      (if truthy (f_search f)
         then col_like (r Title) (contains_pattern (the (f_search f))) \<or>
              col_like (r Description) (contains_pattern (the (f_search f))) else True) \<and>
      (if f_tags f \<noteq> [] then tags_match (f_tags f) r else True) \<and>
      (if truthy (f_priority f) then r Priority = f_priority f else True) \<and>
      (if truthy (f_status f) then r Status = f_status f else True))"

text \<open>
  \<^verbatim>\<open>ORDER BY sort ASC|DESC\<close> on a column: NULL sorts before every text, texts compare
  bytewise. SQL leaves the order of rows with equal keys open; here they stay in storage
  order, which SQLite does not promise (with the index on priority,
  \<^verbatim>\<open>ORDER BY priority DESC\<close> returns equal priorities in reverse storage order). No
  statement of this theory depends on the order of rows with equal keys.
\<close>

definition order_by :: "column \<Rightarrow> bool \<Rightarrow> row list \<Rightarrow> row list" where
  "order_by c reverse rs =
     (if reverse then rev (sort_key (\<lambda>r. r c) (rev rs)) else sort_key (\<lambda>r. r c) rs)"

definition get_tasks :: "store \<Rightarrow> filters \<Rightarrow> column \<Rightarrow> bool \<Rightarrow> row list" where
  "get_tasks st f sort_col reverse =
     order_by sort_col reverse (filter (where_clause f) (tasks st))"

subsection \<open>\<^verbatim>\<open>DatabaseManager.update_task\<close>\<close>

text \<open>
  \<^verbatim>\<open>
  def update_task(self, task_id, updates):
      try:
          with self._get_connection() as conn:
              set_clause = ", ".join([f"{k} = ?" for k in updates])
              values = list(updates.values()) + [task_id]
              conn.execute(f"UPDATE tasks SET {set_clause} WHERE id = ?", values)
              conn.commit()
              return True
      except sqlite3.Error as e:
          return False
  \<close>
  The patch is the dictionary in insertion order, its keys the columns of the table.
  The statement fails with \<^verbatim>\<open>sqlite3.Error\<close> when the SET clause is empty or
  a row it rewrites would break a constraint of the schema; then nothing is written.
\<close>

definition apply_updates :: "(column \<times> string option) list \<Rightarrow> row \<Rightarrow> row" where
  "apply_updates updates r = fold (\<lambda>kv r'. r'(fst kv := snd kv)) updates r"

definition update_task :: "string \<Rightarrow> (column \<times> string option) list \<Rightarrow> store \<Rightarrow> bool \<times> store" where
  "update_task task_id updates st =
     (if updates = [] then (False, st)
      else
        let selected = filter (\<lambda>r. r Id = Some task_id) (tasks st);
            new_tasks =
              map (\<lambda>r. if r Id = Some task_id then apply_updates updates r else r) (tasks st)
        in if list_all row_ok (map (apply_updates updates) selected) \<and>
              (if Id \<in> set (map fst updates) then pk_ok new_tasks else True)
           then (True, st\<lparr>tasks := new_tasks\<rparr>)
           else (False, st))"

subsection \<open>\<^verbatim>\<open>DatabaseManager.assign_task\<close>\<close>

text \<open>
  \<^verbatim>\<open>
  def assign_task(self, task_id, assigner, assignee):
      ...
      if not conn.execute("SELECT 1 FROM users WHERE username = ?", (assignee,)).fetchone():
          return False
      result = conn.execute(
          "UPDATE tasks SET assigned_to = ? WHERE id = ? AND created_by = ?",
          (assignee, task_id, assigner))
      conn.commit()
      return result.rowcount > 0
  \<close>
\<close>

definition assign_hit :: "string \<Rightarrow> string \<Rightarrow> row \<Rightarrow> bool" where
  "assign_hit task_id assigner r = (r Id = Some task_id \<and> r Created_by = Some assigner)"

definition assign_task :: "string \<Rightarrow> string \<Rightarrow> string \<Rightarrow> store \<Rightarrow> bool \<times> store" where
  "assign_task task_id assigner assignee st =
     (if \<not> list_ex (\<lambda>u. username u = assignee) (users st) then (False, st)
      else
        (list_ex (assign_hit task_id assigner) (tasks st),
         st\<lparr>tasks :=
              map (\<lambda>r. if assign_hit task_id assigner r then r(Assigned_to := Some assignee)
                        else r) (tasks st)\<rparr>))"

subsection \<open>ISO texts of datetimes\<close>

text \<open>
  \<^verbatim>\<open>datetime.isoformat()\<close> writes \<^verbatim>\<open>YYYY-MM-DDTHH:MM:SS\<close>, followed by
  \<^verbatim>\<open>.ffffff\<close> when the microsecond is not zero.
\<close>

definition digit_char :: "nat \<Rightarrow> char" where
  "digit_char n = ''0123456789'' ! (n mod 10)"

definition zfill2 :: "nat \<Rightarrow> string" where
  "zfill2 n = [digit_char (n div 10), digit_char n]"

definition zfill4 :: "nat \<Rightarrow> string" where
  "zfill4 n = [digit_char (n div 1000), digit_char (n div 100), digit_char (n div 10),
     digit_char n]"

definition zfill6 :: "nat \<Rightarrow> string" where
  "zfill6 n = [digit_char (n div 100000), digit_char (n div 10000), digit_char (n div 1000),
     digit_char (n div 100), digit_char (n div 10), digit_char n]"

definition isoformat :: "datetime \<Rightarrow> string" where
  "isoformat d =
     zfill4 (year d) @ ''-'' @ zfill2 (month d) @ ''-'' @ zfill2 (day d) @ ''T'' @
     zfill2 (hour d) @ '':'' @ zfill2 (minute d) @ '':'' @ zfill2 (second d) @
     (if microsecond d = 0 then [] else ''.'' @ zfill6 (microsecond d))"

text \<open>
  \<^verbatim>\<open>datetime.fromisoformat\<close>, for the texts that every Python from 3.7 on reads alike:
  \<^verbatim>\<open>YYYY-MM-DD\<close>, alone or followed by one separator character and
  \<^verbatim>\<open>HH[:MM[:SS[.fff[fff]]]]\<close>, with fields in range. These are the texts that the CLI
  stores when the date is zero-padded and that the scan writes. Every other text is an
  error here. Python 3.11 and later read some of them (the basic format
  \<^verbatim>\<open>20240101\<close>, week dates, fractions of other lengths, times without colons), and a
  text with a UTC offset is read by every version and then raises TypeError when it is
  compared with the naive \<^verbatim>\<open>now\<close>. The statements on what a scan writes are therefore
  made for tables whose due dates are readable here.
\<close>

definition digit_val :: "char \<Rightarrow> nat option" where
  "digit_val c = map_of (zip ''0123456789'' [0, 1, 2, 3, 4, 5, 6, 7, 8, 9]) c"

fun digits_val :: "string \<Rightarrow> nat \<Rightarrow> nat option" where
  "digits_val [] acc = Some acc"
| "digits_val (c # cs) acc =
     (case digit_val c of None \<Rightarrow> None | Some v \<Rightarrow> digits_val cs (10 * acc + v))"

definition parse_date :: "string \<Rightarrow> (nat \<times> nat \<times> nat) option" where
  "parse_date s =
     (if length s = 10 \<and> s ! 4 = CHR ''-'' \<and> s ! 7 = CHR ''-'' then
        (case (digits_val (take 4 s) 0, digits_val (take 2 (drop 5 s)) 0,
               digits_val (drop 8 s) 0) of
           (Some y, Some m, Some d) \<Rightarrow> Some (y, m, d)
         | _ \<Rightarrow> None)
      else None)"

definition parse_time :: "string \<Rightarrow> (nat \<times> nat \<times> nat \<times> nat) option" where
  "parse_time t =
     (let n = length t;
          hh = digits_val (take 2 t) 0;
          mm = (if n = 2 then Some 0 else digits_val (take 2 (drop 3 t)) 0);
          ss = (if n \<le> 5 then Some 0 else digits_val (take 2 (drop 6 t)) 0);
          ff = (if n \<le> 8 then Some 0
                else if n = 12 then map_option (\<lambda>v. v * 1000) (digits_val (drop 9 t) 0)
                else digits_val (drop 9 t) 0)
      in if n \<in> {2, 5, 8, 12, 15} \<and> (n = 2 \<or> t ! 2 = CHR '':'') \<and>
            (n \<le> 5 \<or> t ! 5 = CHR '':'') \<and> (n \<le> 8 \<or> t ! 8 = CHR ''.'')
         then (case (hh, mm, ss, ff) of
                 (Some h, Some m, Some s, Some f) \<Rightarrow> Some (h, m, s, f)
               | _ \<Rightarrow> None)
         else None)"

definition fromisoformat :: "string \<Rightarrow> py_error + datetime" where
  "fromisoformat s =
     (case parse_date (take 10 s) of
        None \<Rightarrow> Inl ValueError
      | Some (y, m, d) \<Rightarrow>
         (case (if length s = 10 then Some (0, 0, 0, 0)
                else if length s = 11 then None else parse_time (drop 11 s)) of
            None \<Rightarrow> Inl ValueError
          | Some (h, mi, sec, f) \<Rightarrow>
             (let dt = \<lparr>year = y, month = m, day = d, hour = h, minute = mi, second = sec,
                        microsecond = f\<rparr>
              in if valid_datetime dt then Inr dt else Inl ValueError)))"

subsection \<open>\<^verbatim>\<open>utils/reminders.py\<close>: the recurrence scan\<close>

text \<open>
  \<^verbatim>\<open>
  def check_and_update_recurring_tasks():
      for task in db.get_tasks({"recurrence": True}):
          if task['due_date'] and datetime.fromisoformat(task['due_date']) <= datetime.now():
              updated_task = task.copy()
              updated_task['due_date'] = calculate_next_occurrence(
                  datetime.fromisoformat(task['due_date']),
                  task['recurrence']
              ).isoformat()
              db.update_task(task['id'], updated_task)
  \<close>
  The loop runs over the rows fetched before it starts. An exception leaves the loop
  and the function; the store keeps what was written until then. The result of
  \<^verbatim>\<open>update_task\<close> is dropped. All clock readings of one scan are the same
  \<open>now\<close>. A fetched row with a NULL id makes the statement of \<^verbatim>\<open>update_task\<close>
  compare \<^verbatim>\<open>id = NULL\<close>, which selects no row.
\<close>

definition dict_of_row :: "row \<Rightarrow> (column \<times> string option) list" where
  "dict_of_row r = map (\<lambda>c. (c, r c)) all_columns"

fun scan_loop :: "datetime \<Rightarrow> row list \<Rightarrow> store \<Rightarrow> py_error option \<times> store" where
  "scan_loop now [] st = (None, st)"
| "scan_loop now (task # rest) st =
     (case task Due_date of
        None \<Rightarrow> scan_loop now rest st
      | Some text \<Rightarrow>
          if text = [] then scan_loop now rest st
          else
            (case fromisoformat text of
               Inl e \<Rightarrow> (Some e, st)
             | Inr due \<Rightarrow>
                 if dt_le due now then
                   (case calculate_next_occurrence due (task Recurrence) of
                      Inl e \<Rightarrow> (Some e, st)
                    | Inr next_due \<Rightarrow>
                        scan_loop now rest
                          (case task Id of
                             None \<Rightarrow> st
                           | Some i \<Rightarrow>
                               snd (update_task i
                                 (dict_of_row (task(Due_date := Some (isoformat next_due))))
                                 st)))
                 else scan_loop now rest st))"

definition check_and_update_recurring_tasks :: "datetime \<Rightarrow> store \<Rightarrow> py_error option \<times> store" where
  "check_and_update_recurring_tasks now st =
     scan_loop now (get_tasks st (no_filters\<lparr>f_recurrence := Some True\<rparr>) Due_date False) st"

subsection \<open>\<^verbatim>\<open>cli.py\<close>: the overdue post-filter of \<^verbatim>\<open>list_tasks\<close>\<close>



text \<open>
  The tag set of a row, as \<^verbatim>\<open>create_task\<close> joins it and \<^verbatim>\<open>list_tasks\<close> splits
  it: the pieces of the \<^verbatim>\<open>tags\<close> text between commas.
\<close>

fun split_commas :: "string \<Rightarrow> string list" where
  "split_commas [] = [[]]"
| "split_commas (c # cs) =
     (if c = CHR '','' then [] # split_commas cs
      else (case split_commas cs of [] \<Rightarrow> [[c]] | w # ws \<Rightarrow> (c # w) # ws))"

definition tag_set :: "row \<Rightarrow> string set" where
  "tag_set r = (case r Tags of None \<Rightarrow> {} | Some s \<Rightarrow> if s = [] then {} else set (split_commas s))"

subsection \<open>A small store for examples\<close>

text \<open>
  Rows as \<^verbatim>\<open>create_task\<close> writes them (description empty, priority medium):
  id, due date, status, tags, recurrence and owner vary.
\<close>

definition mk_row :: "string \<Rightarrow> string option \<Rightarrow> string \<Rightarrow> string option \<Rightarrow> string option \<Rightarrow> string \<Rightarrow> row" where
  "mk_row i due st tg rec owner =
     (\<lambda>c. None)(Id := Some i, Title := Some ''task'', Description := Some [], Due_date := due,
       Priority := Some ''medium'', Status := Some st, Tags := tg, Recurrence := rec,
       Created_at := Some ''2024-01-01 00:00:00'', Created_by := Some owner)"

definition demo_users :: "user list" where
  "demo_users = [\<lparr>username = ''alice'', email = ''a@x.org'', hashed_password = ''h1''\<rparr>,
                 \<lparr>username = ''bob'', email = ''b@x.org'', hashed_password = ''h2''\<rparr>]"

definition demo_store :: store where
  "demo_store = \<lparr>users = demo_users,
     tasks = [mk_row ''t1'' (Some ''2024-01-01'') ''pending'' (Some ''work,urgent'') (Some ''daily'') ''alice'',
              mk_row ''t2'' None ''pending'' (Some ''home'') None ''alice'',
              mk_row ''t3'' (Some ''2024-01-01'') ''completed'' (Some ''work'') None ''bob'']\<rparr>"

definition demo_now :: datetime where
  "demo_now = \<lparr>year = 2024, month = 1, day = 10, hour = 9, minute = 30, second = 0,
     microsecond = 0\<rparr>"

subsection \<open>The body of the scan on one row\<close>

text \<open>
  The test of the \<^verbatim>\<open>if\<close> in the loop of the scan, and the row that the loop hands
  to \<^verbatim>\<open>update_task\<close> when the test holds and nothing raises.
\<close>

definition due_for_rollover :: "datetime \<Rightarrow> row \<Rightarrow> bool" where
  "due_for_rollover now r =
     (case r Due_date of
        None \<Rightarrow> False
      | Some text \<Rightarrow>
          text \<noteq> [] \<and> (case fromisoformat text of Inl e \<Rightarrow> False | Inr due \<Rightarrow> dt_le due now))"

definition rollover :: "datetime \<Rightarrow> row \<Rightarrow> row option" where
  "rollover now r =
     (case r Due_date of
        None \<Rightarrow> None
      | Some text \<Rightarrow>
          if text = [] then None
          else
            (case fromisoformat text of
               Inl e \<Rightarrow> None
             | Inr due \<Rightarrow>
                 if dt_le due now then
                   (case calculate_next_occurrence due (r Recurrence) of
                      Inl e \<Rightarrow> None
                    | Inr next_due \<Rightarrow> Some (r(Due_date := Some (isoformat next_due))))
                 else None))"

text \<open>What one scan may do to a row: nothing, or write the rolled-over row.\<close>

definition scanned :: "datetime \<Rightarrow> row \<Rightarrow> row \<Rightarrow> bool" where
  "scanned now r r' = (r' = r \<or> rollover now r = Some r')"

text \<open>A store with one daily task, due on 2024-01-01.\<close>

definition late_store :: store where
  "late_store = \<lparr>users = demo_users,
     tasks = [mk_row ''t1'' (Some ''2024-01-01'') ''pending'' (Some ''work'') (Some ''daily'') ''alice'']\<rparr>"


text \<open>A task tagged \<^verbatim>\<open>homework\<close> only.\<close>

definition homework_row :: row where
  "homework_row = mk_row ''t4'' None ''pending'' (Some ''homework'') None ''alice''"

subsection \<open>Tables that satisfy the schema, and the outcome of a scan on one row\<close>




text \<open>The first \<open>k\<close> decimal digits of a number, from the right: the zero-padded fields.\<close>

fun digs :: "nat \<Rightarrow> nat \<Rightarrow> string" where
  "digs 0 n = []"
| "digs (Suc k) n = digs k (n div 10) @ [digit_char n]"


section \<open>Properties\<close>

subsection \<open>Evaluation of date arithmetic\<close>

lemma add_days_numeral:
  "add_days d (numeral k) =
     (if year (next_day d) > 9999 then Inl OverflowError
      else add_days (next_day d) (pred_numeral k))"
  by (simp add: numeral_eq_Suc)

lemma add_days_one:
  "add_days d 1 = (if year (next_day d) > 9999 then Inl OverflowError else Inr (next_day d))"
  by simp

lemmas date_defs =
  calculate_next_occurrence_def replace_day_def days_in_month_def is_leap_def next_day_def
  add_days_numeral

lemmas iso_defs =
  fromisoformat_def parse_date_def parse_time_def digit_val_def valid_datetime_def
  isoformat_def zfill2_def zfill4_def zfill6_def digit_char_def

subsection \<open>Monthly rollover\<close>

text \<open>
  C2. A monthly task due 2024-01-31 should roll over to a February date. The code
  computes 2024-01-01 + 32 days = 2024-02-02 and then asks for day 31 of February,
  which raises ValueError: no date is produced.
\<close>

theorem monthly_jan31_raises:
  "calculate_next_occurrence
     \<lparr>year = 2024, month = 1, day = 31, hour = 0, minute = 0, second = 0, microsecond = 0\<rparr>
     (Some ''monthly'') = Inl ValueError"
  by (simp add: date_defs)

subsection \<open>Assignment\<close>

lemma assign_task_unchanged:
  "\<not> list_ex (assign_hit tid a) rs \<Longrightarrow>
   map (\<lambda>r. if assign_hit tid a r then r(Assigned_to := Some b) else r) rs = rs"
  by (induction rs) auto

text \<open>
  C1. \<^verbatim>\<open>assign_task\<close> returns True exactly when the assignee is a known user and a
  task with the given id exists whose \<^verbatim>\<open>created_by\<close> is the assigner. When it
  returns False the store is the one before the call. When it returns True the users
  are unchanged and the tasks are the old ones, with \<^verbatim>\<open>assigned_to\<close> of the task
  with that id and owner overwritten by the assignee.
\<close>

theorem assign_task_iff:
  "(fst (assign_task tid assigner assignee st) \<longleftrightarrow>
      (\<exists>u \<in> set (users st). username u = assignee) \<and>
      (\<exists>r \<in> set (tasks st). r Id = Some tid \<and> r Created_by = Some assigner)) \<and>
   (\<not> fst (assign_task tid assigner assignee st) \<longrightarrow>
      snd (assign_task tid assigner assignee st) = st) \<and>
   (fst (assign_task tid assigner assignee st) \<longrightarrow>
      users (snd (assign_task tid assigner assignee st)) = users st \<and>
      tasks (snd (assign_task tid assigner assignee st)) =
        map (\<lambda>r. if r Id = Some tid \<and> r Created_by = Some assigner
                  then r(Assigned_to := Some assignee) else r) (tasks st))"
proof -
  have hit: "assign_hit tid assigner = (\<lambda>r. r Id = Some tid \<and> r Created_by = Some assigner)"
    by (simp add: assign_hit_def fun_eq_iff)
  show ?thesis
  proof (cases "list_ex (\<lambda>u. username u = assignee) (users st)")
    case False
    then show ?thesis by (simp add: assign_task_def list_ex_iff)
  next
    case True
    show ?thesis
    proof (cases "list_ex (assign_hit tid assigner) (tasks st)")
      case h: True
      with True show ?thesis
        by (auto simp: assign_task_def list_ex_iff hit)
    next
      case h: False
      from assign_task_unchanged [OF h]
      have "snd (assign_task tid assigner assignee st) = st"
        using True by (simp add: assign_task_def)
      with True h show ?thesis
        by (auto simp: assign_task_def list_ex_iff hit)
    qed
  qed
qed

text \<open>
  In the example store alice owns t1 and bob is a user: alice can assign t1 to bob;
  bob cannot assign it, an unknown id fails, and so does an unknown assignee.
\<close>

theorem assign_task_iff_witness:
  "fst (assign_task ''t1'' ''alice'' ''bob'' demo_store) \<and>
   map (\<lambda>r. r Assigned_to) (tasks (snd (assign_task ''t1'' ''alice'' ''bob'' demo_store)))
     = [Some ''bob'', None, None] \<and>
   \<not> fst (assign_task ''t1'' ''bob'' ''alice'' demo_store) \<and>
   snd (assign_task ''t1'' ''bob'' ''alice'' demo_store) = demo_store \<and>
   \<not> fst (assign_task ''nope'' ''alice'' ''bob'' demo_store) \<and>
   \<not> fst (assign_task ''t1'' ''alice'' ''carol'' demo_store)"
  using assign_task_iff [of "''t1''" "''alice''" "''bob''" demo_store]
    assign_task_iff [of "''t1''" "''bob''" "''alice''" demo_store]
    assign_task_iff [of "''nope''" "''alice''" "''bob''" demo_store]
    assign_task_iff [of "''t1''" "''alice''" "''carol''" demo_store]
  by (simp add: demo_store_def demo_users_def mk_row_def)

subsection \<open>Update of a missing task\<close>

text \<open>
  C5. An update of an id that names no task should be reported as a failure. The
  UPDATE statement selects no row and raises nothing, so \<^verbatim>\<open>update_task\<close> returns
  True; \<^verbatim>\<open>assign_task\<close> looks at \<^verbatim>\<open>rowcount\<close>, \<^verbatim>\<open>update_task\<close> does not.
\<close>

theorem update_task_missing_id_succeeds:
  "fst (update_task ''no-such-id'' [(Status, Some ''completed'')] demo_store) = True \<and>
   ''no-such-id'' \<notin> set (ids (tasks demo_store))"
  by (simp add: update_task_def demo_store_def mk_row_def ids_def)

subsection \<open>The query of the recurrence scan\<close>

lemma get_tasks_recurrence_all:
  "set (get_tasks st (no_filters\<lparr>f_recurrence := x\<rparr>) c rv) = set (tasks st)"
  by (simp add: get_tasks_def order_by_def where_clause_def no_filters_def truthy_def)

text \<open>
  C4. The scan should fetch exactly the tasks with a recurrence. It calls
  \<^verbatim>\<open>get_tasks({"recurrence": True})\<close>, and \<^verbatim>\<open>get_tasks\<close> reads no such key: in
  the example store the query returns all three tasks, two of them with a NULL
  recurrence.
\<close>

theorem scan_query_returns_non_recurring:
  "map (\<lambda>r. (r Id, r Recurrence))
     (get_tasks demo_store (no_filters\<lparr>f_recurrence := Some True\<rparr>) Due_date False) =
   [(Some ''t2'', None), (Some ''t1'', Some ''daily''), (Some ''t3'', None)]"
  by (simp add: get_tasks_def order_by_def where_clause_def no_filters_def truthy_def
      demo_store_def mk_row_def)

subsection \<open>Writing and reading ISO texts\<close>

lemma digit_val_digit_char: "digit_val (digit_char n) = Some (n mod 10)"
proof -
  have "n mod 10 < 10" by simp
  then have "n mod 10 = 0 \<or> n mod 10 = 1 \<or> n mod 10 = 2 \<or> n mod 10 = 3 \<or> n mod 10 = 4
    \<or> n mod 10 = 5 \<or> n mod 10 = 6 \<or> n mod 10 = 7 \<or> n mod 10 = 8 \<or> n mod 10 = 9"
    by arith
  then show ?thesis
    unfolding digit_val_def digit_char_def by (elim disjE) simp_all
qed

lemma div_1000: "(n::nat) div 1000 = n div 100 div 10" and div_100: "n div 100 = n div 10 div 10"
  and div_10000: "n div 10000 = n div 1000 div 10" and div_100000: "n div 100000 = n div 10000 div 10"
  by (simp_all add: div_mult2_eq [symmetric])

lemma small_mod: "(n::nat) < 10 * k \<Longrightarrow> n div k mod 10 = n div k"
  by (cases "k = 0") (simp_all add: less_mult_imp_div_less mult.commute)

lemma digits2: "n < 100 \<Longrightarrow> digits_val (zfill2 n) 0 = Some n"
  using small_mod [of n 10] by (simp add: zfill2_def digit_val_digit_char)


lemma digits4: assumes "n < 10000" shows "digits_val (zfill4 n) 0 = Some n"
proof -
  have a: "n div 1000 mod 10 = n div 1000" using assms small_mod [of n 1000] by simp
  have "10 * (10 * (10 * (n div 1000) + n div 100 mod 10) + n div 10 mod 10) + n mod 10 = n"
    by (simp add: div_1000 div_100)
  then show ?thesis
    by (simp add: zfill4_def digit_val_digit_char a)
qed

lemma digits6: assumes "n < 1000000" shows "digits_val (zfill6 n) 0 = Some n"
proof -
  have a: "n div 100000 mod 10 = n div 100000" using assms small_mod [of n 100000] by simp
  have "10 * (10 * (10 * (10 * (10 * (n div 100000) + n div 10000 mod 10) + n div 1000 mod 10)
          + n div 100 mod 10) + n div 10 mod 10) + n mod 10 = n"
    by (simp add: div_100000 div_10000 div_1000 div_100)
  then show ?thesis
    by (simp add: zfill6_def digit_val_digit_char a)
qed

lemma length_zfill2 [simp]: "length (zfill2 n) = 2" by (simp add: zfill2_def)
lemma length_zfill4 [simp]: "length (zfill4 n) = 4" by (simp add: zfill4_def)
lemma length_zfill6 [simp]: "length (zfill6 n) = 6" by (simp add: zfill6_def)

lemma parse_date_iso:
  assumes "y < 10000" "m < 100" "d < 100"
  shows "parse_date (zfill4 y @ ''-'' @ zfill2 m @ ''-'' @ zfill2 d) = Some (y, m, d)"
  using digits4 [OF assms(1)] digits2 [OF assms(2)] digits2 [OF assms(3)]
  by (simp add: parse_date_def nth_append)

lemma parse_time_iso0:
  assumes "h < 100" "m < 100" "s < 100"
  shows "parse_time (zfill2 h @ '':'' @ zfill2 m @ '':'' @ zfill2 s) = Some (h, m, s, 0)"
  using digits2 [OF assms(1)] digits2 [OF assms(2)] digits2 [OF assms(3)]
  by (simp add: parse_time_def nth_append)

lemma parse_time_iso6:
  assumes "h < 100" "m < 100" "s < 100" "f < 1000000"
  shows "parse_time (zfill2 h @ '':'' @ zfill2 m @ '':'' @ zfill2 s @ ''.'' @ zfill6 f) = Some (h, m, s, f)"
  using digits2 [OF assms(1)] digits2 [OF assms(2)] digits2 [OF assms(3)] digits6 [OF assms(4)]
  by (simp add: parse_time_def nth_append)


lemma days_in_month_le: "days_in_month y m \<le> 31"
  by (simp add: days_in_month_def)

lemma fromisoformat_isoformat:
  assumes v: "valid_datetime d"
  shows "fromisoformat (isoformat d) = Inr d"
proof -
  define D where "D = zfill4 (year d) @ ''-'' @ zfill2 (month d) @ ''-'' @ zfill2 (day d)"
  define T where "T = zfill2 (hour d) @ '':'' @ zfill2 (minute d) @ '':'' @ zfill2 (second d) @
     (if microsecond d = 0 then [] else ''.'' @ zfill6 (microsecond d))"
  have iso: "isoformat d = D @ CHR ''T'' # T"
    by (simp add: isoformat_def D_def T_def)
  have lenD: "length D = 10" by (simp add: D_def)
  have lenT: "length T = (if microsecond d = 0 then 8 else 15)" by (simp add: T_def)
  have dd: "day d \<le> 31" using v days_in_month_le [of "year d" "month d"]
    by (simp add: valid_datetime_def)
  have pd: "parse_date D = Some (year d, month d, day d)"
    unfolding D_def using v dd by (intro parse_date_iso) (simp_all add: valid_datetime_def)
  have pt: "parse_time T = Some (hour d, minute d, second d, microsecond d)"
  proof (cases "microsecond d = 0")
    case True
    then show ?thesis
      using v parse_time_iso0 [of "hour d" "minute d" "second d"]
      by (simp add: T_def valid_datetime_def)
  next
    case False
    then show ?thesis
      using v parse_time_iso6 [of "hour d" "minute d" "second d" "microsecond d"]
      by (simp add: T_def valid_datetime_def)
  qed
  have tk: "take 10 (isoformat d) = D" and dr: "drop 11 (isoformat d) = T"
    and ln: "length (isoformat d) \<noteq> 10" "length (isoformat d) \<noteq> 11"
    using lenD lenT by (simp_all add: iso)
  have eq: "\<lparr>year = year d, month = month d, day = day d, hour = hour d, minute = minute d,
      second = second d, microsecond = microsecond d\<rparr> = d"
    by (cases d) simp
  show ?thesis
    using v by (simp add: fromisoformat_def tk dr ln pd pt eq)
qed

lemma fromisoformat_valid: "fromisoformat s = Inr d \<Longrightarrow> valid_datetime d"
  by (auto simp: fromisoformat_def Let_def split: option.splits if_splits prod.splits)

subsection \<open>What a scan does to each row\<close>

lemma apply_updates_dict_of_row: "apply_updates (dict_of_row t) r = t"
proof
  fix c show "apply_updates (dict_of_row t) r c = t c"
    by (cases c) (simp_all add: apply_updates_def dict_of_row_def all_columns_def)
qed

lemma update_task_cases:
  "users (snd (update_task i ups st)) = users st \<and>
   (tasks (snd (update_task i ups st)) = tasks st \<or>
    tasks (snd (update_task i ups st)) =
      map (\<lambda>r. if r Id = Some i then apply_updates ups r else r) (tasks st))"
  by (simp add: update_task_def Let_def)

lemma ids_member: "r \<in> set rs \<Longrightarrow> r Id = Some i \<Longrightarrow> i \<in> set (ids rs)"
  by (induction rs) (auto simp: ids_def)

lemma pk_unique:
  "pk_ok rs \<Longrightarrow> r \<in> set rs \<Longrightarrow> t \<in> set rs \<Longrightarrow> r Id = Some i \<Longrightarrow> t Id = Some i \<Longrightarrow> r = t"
proof (induction rs)
  case Nil
  then show ?case by simp
next
  case (Cons a rs)
  have tl: "pk_ok rs" using Cons.prems(1) by (auto simp: pk_ok_def ids_def split: option.splits)
  have fresh: "a Id = Some i \<Longrightarrow> i \<notin> set (ids rs)"
    using Cons.prems(1) by (auto simp: pk_ok_def ids_def)
  show ?case
  proof (cases "r = a")
    case ra: True
    show ?thesis
    proof (cases "t = a")
      case True with ra show ?thesis by simp
    next
      case False
      then have "t \<in> set rs" using Cons.prems(3) by simp
      then have "i \<in> set (ids rs)" using Cons.prems(5) by (rule ids_member)
      with fresh ra Cons.prems(4) show ?thesis by simp
    qed
  next
    case rna: False
    then have rin: "r \<in> set rs" using Cons.prems(2) by simp
    show ?thesis
    proof (cases "t = a")
      case True
      have "i \<in> set (ids rs)" using rin Cons.prems(4) by (rule ids_member)
      with fresh True Cons.prems(5) show ?thesis by simp
    next
      case False
      then have "t \<in> set rs" using Cons.prems(3) by simp
      with Cons.IH tl rin Cons.prems(4,5) show ?thesis by blast
    qed
  qed
qed

lemma rollover_id: "rollover now r = Some r' \<Longrightarrow> r' Id = r Id"
  by (auto simp: rollover_def split: option.splits if_splits sum.splits)

lemma scanned_id: "scanned now r r' \<Longrightarrow> r' Id = r Id"
  by (auto simp: scanned_def rollover_id)

lemma scanned_update_step:
  assumes pk: "pk_ok rs0" and tin: "t \<in> set rs0" and tid: "t Id = Some i"
    and inv: "list_all2 (scanned now) rs0 rs" and ro: "rollover now t = Some t'"
  shows "list_all2 (scanned now) rs0 (map (\<lambda>r. if r Id = Some i then t' else r) rs)"
proof -
  have len: "length rs0 = length rs" using inv by (rule list_all2_lengthD)
  show ?thesis
  proof (rule list_all2_all_nthI)
    show "length rs0 = length (map (\<lambda>r. if r Id = Some i then t' else r) rs)"
      using len by simp
  next
    fix n assume n: "n < length rs0"
    have e: "scanned now (rs0 ! n) (rs ! n)" using inv n by (rule list_all2_nthD)
    show "scanned now (rs0 ! n) (map (\<lambda>r. if r Id = Some i then t' else r) rs ! n)"
    proof (cases "(rs ! n) Id = Some i")
      case True
      then have "(rs0 ! n) Id = Some i" using scanned_id [OF e] by simp
      moreover have "rs0 ! n \<in> set rs0" using n by simp
      ultimately have "rs0 ! n = t" using pk tin tid pk_unique by blast
      with True ro n len show ?thesis by (simp add: scanned_def)
    next
      case False
      with e n len show ?thesis by simp
    qed
  qed
qed

lemma scan_loop_effect:
  assumes pk: "pk_ok rs0"
  shows "set fetched \<subseteq> set rs0 \<Longrightarrow> list_all2 (scanned now) rs0 (tasks st) \<Longrightarrow>
     list_all2 (scanned now) rs0 (tasks (snd (scan_loop now fetched st))) \<and>
     users (snd (scan_loop now fetched st)) = users st"
proof (induction fetched arbitrary: st)
  case Nil
  then show ?case by simp
next
  case (Cons t rest)
  have tin: "t \<in> set rs0" and sub: "set rest \<subseteq> set rs0" using Cons.prems(1) by simp_all
  note IH = Cons.IH [OF sub]
  show ?case
  proof (cases "rollover now t")
    case None
    then show ?thesis
      using IH [OF Cons.prems(2)] Cons.prems(2)
      by (auto simp: rollover_def split: option.splits if_splits sum.splits)
  next
    case (Some t')
    then obtain s due next_due where
      d: "t Due_date = Some s" "s \<noteq> []" "fromisoformat s = Inr due" "dt_le due now"
        "calculate_next_occurrence due (t Recurrence) = Inr next_due"
        "t' = t(Due_date := Some (isoformat next_due))"
      by (auto simp: rollover_def split: option.splits if_splits sum.splits)
    define st' where "st' = (case t Id of None \<Rightarrow> st
        | Some i \<Rightarrow> snd (update_task i (dict_of_row t') st))"
    have step: "scan_loop now (t # rest) st = scan_loop now rest st'"
      using d(1-5) unfolding st'_def d(6) by simp
    have inv': "list_all2 (scanned now) rs0 (tasks st')" and us: "users st' = users st"
    proof -
      show "list_all2 (scanned now) rs0 (tasks st')"
      proof (cases "t Id")
        case None
        then show ?thesis using Cons.prems(2) by (simp add: st'_def)
      next
        case (Some i)
        from update_task_cases [of i "dict_of_row t'" st]
        consider "tasks st' = tasks st"
          | "tasks st' = map (\<lambda>r. if r Id = Some i then apply_updates (dict_of_row t') r else r) (tasks st)"
          using Some by (auto simp: st'_def)
        then show ?thesis
        proof cases
          case 1
          then show ?thesis using Cons.prems(2) by simp
        next
          case 2
          then show ?thesis
            using scanned_update_step [OF pk tin Some Cons.prems(2) \<open>rollover now t = Some t'\<close>]
            by (simp add: apply_updates_dict_of_row cong: if_cong)
        qed
      qed
      show "users st' = users st"
        using update_task_cases by (simp add: st'_def split: option.splits)
    qed
    show ?thesis unfolding step using IH [OF inv'] us by simp
  qed
qed

lemma scanned_refl: "list_all2 (scanned now) rs rs"
  by (simp add: list_all2_refl scanned_def)

lemma scan_effect:
  assumes "pk_ok (tasks st)"
  shows "list_all2 (scanned now) (tasks st) (tasks (snd (check_and_update_recurring_tasks now st))) \<and>
     users (snd (check_and_update_recurring_tasks now st)) = users st"
  unfolding check_and_update_recurring_tasks_def
  by (rule scan_loop_effect [OF assms _ scanned_refl])
     (simp add: get_tasks_recurrence_all)

subsection \<open>Evaluating a scan on the example stores\<close>

lemmas scan_defs = check_and_update_recurring_tasks_def get_tasks_def order_by_def where_clause_def
  no_filters_def truthy_def update_task_def dict_of_row_def all_columns_def apply_updates_def
  row_ok_def pk_ok_def ids_def dt_le_def dt_fields_def

lemma demo_store_pk: "pk_ok (tasks demo_store)"
  by (simp add: pk_ok_def ids_def demo_store_def mk_row_def)

lemma late_store_pk: "pk_ok (tasks late_store)"
  by (simp add: pk_ok_def ids_def late_store_def mk_row_def)

lemma demo_store_scan_once:
  "map (\<lambda>r. r Due_date) (tasks (snd (check_and_update_recurring_tasks demo_now demo_store)))
   = [Some ''2024-01-02T00:00:00'', None, Some ''2024-01-01T00:00:00'']"
  by (simp add: scan_defs demo_store_def mk_row_def demo_now_def iso_defs date_defs)

lemma scanned_ids: "list_all2 (scanned now) rs rs' \<Longrightarrow> ids rs' = ids rs"
  by (induction rs rs' rule: list_all2_induct) (auto simp: ids_def dest: scanned_id)



lemma apply_updates_other:
  "c \<notin> set (map fst ups) \<Longrightarrow> apply_updates ups r c = r c"
  unfolding apply_updates_def by (induction ups arbitrary: r) auto

subsection \<open>The frame of the scan\<close>

text \<open>
  C8. Let the primary key hold. The scan changes no column of any task except
  \<^verbatim>\<open>due_date\<close>: title, description, priority, status, tags, recurrence, created_by,
  assigned_to, created_at and id of every row are the same after the scan, also when
  an exception ends it early. The users are unchanged.
\<close>

theorem scan_changes_only_due_date:
  assumes "pk_ok (tasks st)"
  shows "list_all2 (\<lambda>r r'. \<forall>c. c \<noteq> Due_date \<longrightarrow> r' c = r c)
       (tasks st) (tasks (snd (check_and_update_recurring_tasks now st))) \<and>
     users (snd (check_and_update_recurring_tasks now st)) = users st"
proof -
  have "list_all2 (scanned now) (tasks st) (tasks (snd (check_and_update_recurring_tasks now st)))"
    using scan_effect [OF assms] by simp
  then have "list_all2 (\<lambda>r r'. \<forall>c. c \<noteq> Due_date \<longrightarrow> r' c = r c)
       (tasks st) (tasks (snd (check_and_update_recurring_tasks now st)))"
    by (rule list_all2_mono)
       (auto simp: scanned_def rollover_def split: option.splits if_splits sum.splits)
  then show ?thesis using scan_effect [OF assms] by simp
qed

text \<open>
  On the example store the scan rewrites the due dates of t1 and t3 and nothing else.
\<close>

theorem scan_changes_only_due_date_witness:
  "pk_ok (tasks demo_store) \<and>
   list_all2 (\<lambda>r r'. \<forall>c. c \<noteq> Due_date \<longrightarrow> r' c = r c)
     (tasks demo_store) (tasks (snd (check_and_update_recurring_tasks demo_now demo_store))) \<and>
   map (\<lambda>r. r Due_date) (tasks (snd (check_and_update_recurring_tasks demo_now demo_store)))
     = [Some ''2024-01-02T00:00:00'', None, Some ''2024-01-01T00:00:00'']"
  using scan_changes_only_due_date [OF demo_store_pk, of demo_now] demo_store_pk
    demo_store_scan_once
  by blast

subsection \<open>Owner and id\<close>

text \<open>
  C6, as stated: no store operation changes \<^verbatim>\<open>created_by\<close> or \<^verbatim>\<open>id\<close> of a
  task, in particular no update with any partial field set. \<^verbatim>\<open>update_task\<close> writes
  every column that the patch names: a patch naming \<^verbatim>\<open>created_by\<close> gives t1 to bob,
  a patch naming \<^verbatim>\<open>id\<close> renames it.
\<close>

theorem update_task_rewrites_owner_and_id:
  "(tasks demo_store ! 0) Created_by = Some ''alice'' \<and>
   fst (update_task ''t1'' [(Created_by, Some ''bob'')] demo_store) \<and>
   (tasks (snd (update_task ''t1'' [(Created_by, Some ''bob'')] demo_store)) ! 0) Created_by
     = Some ''bob'' \<and>
   (tasks demo_store ! 0) Id = Some ''t1'' \<and>
   fst (update_task ''t1'' [(Id, Some ''t9'')] demo_store) \<and>
   (tasks (snd (update_task ''t1'' [(Id, Some ''t9'')] demo_store)) ! 0) Id = Some ''t9''"
  by (simp add: scan_defs demo_store_def mk_row_def)

text \<open>
  C6, amended. \<^verbatim>\<open>created_by\<close> and \<^verbatim>\<open>id\<close> of every task are unchanged by
  \<^verbatim>\<open>update_task\<close> with a patch that names neither column (such as the patches that the
  update command of the CLI builds), by \<^verbatim>\<open>assign_task\<close>, and, the primary key
  holding, by the recurrence scan.
\<close>

theorem id_and_owner_kept:
  "(Id \<notin> set (map fst updates) \<and> Created_by \<notin> set (map fst updates) \<longrightarrow>
      list_all2 (\<lambda>r r'. r' Id = r Id \<and> r' Created_by = r Created_by)
        (tasks st) (tasks (snd (update_task tid updates st)))) \<and>
   list_all2 (\<lambda>r r'. r' Id = r Id \<and> r' Created_by = r Created_by)
     (tasks st) (tasks (snd (assign_task tid assigner assignee st))) \<and>
   (pk_ok (tasks st) \<longrightarrow>
      list_all2 (\<lambda>r r'. r' Id = r Id \<and> r' Created_by = r Created_by)
        (tasks st) (tasks (snd (check_and_update_recurring_tasks now st))))"
proof (intro conjI impI)
  assume k: "Id \<notin> set (map fst updates) \<and> Created_by \<notin> set (map fst updates)"
  from update_task_cases [of tid updates st]
  show "list_all2 (\<lambda>r r'. r' Id = r Id \<and> r' Created_by = r Created_by)
        (tasks st) (tasks (snd (update_task tid updates st)))"
    using k by (auto simp: list_all2_map2 apply_updates_other intro!: list_all2_refl)
next
  show "list_all2 (\<lambda>r r'. r' Id = r Id \<and> r' Created_by = r Created_by)
     (tasks st) (tasks (snd (assign_task tid assigner assignee st)))"
    by (auto simp: assign_task_def list_all2_map2 intro!: list_all2_refl)
next
  assume pk: "pk_ok (tasks st)"
  have "list_all2 (scanned now) (tasks st) (tasks (snd (check_and_update_recurring_tasks now st)))"
    using scan_effect [OF pk] by simp
  then show "list_all2 (\<lambda>r r'. r' Id = r Id \<and> r' Created_by = r Created_by)
        (tasks st) (tasks (snd (check_and_update_recurring_tasks now st)))"
    by (rule list_all2_mono)
       (auto simp: scanned_def rollover_def split: option.splits if_splits sum.splits)
qed

theorem id_and_owner_kept_witness:
  "(Id \<notin> set (map fst [(Status, Some ''completed''), (Due_date, Some ''2024-02-01'')]) \<and>
    Created_by \<notin> set (map fst [(Status, Some ''completed''), (Due_date, Some ''2024-02-01'')])) \<and>
   pk_ok (tasks demo_store) \<and>
   list_all2 (\<lambda>r r'. r' Id = r Id \<and> r' Created_by = r Created_by) (tasks demo_store)
     (tasks (snd (update_task ''t1''
        [(Status, Some ''completed''), (Due_date, Some ''2024-02-01'')] demo_store))) \<and>
   list_all2 (\<lambda>r r'. r' Id = r Id \<and> r' Created_by = r Created_by) (tasks demo_store)
     (tasks (snd (check_and_update_recurring_tasks demo_now demo_store)))"
proof -
  have a: "Id \<notin> set (map fst [(Status, Some ''completed''), (Due_date, Some ''2024-02-01'')]) \<and>
    Created_by \<notin> set (map fst [(Status, Some ''completed''), (Due_date, Some ''2024-02-01'')])"
    by simp
  note t = id_and_owner_kept [of "[(Status, Some ''completed''), (Due_date, Some ''2024-02-01'')]"
      demo_store "''t1''" "''alice''" "''bob''" demo_now]
  from t a demo_store_pk show ?thesis by blast
qed

subsection \<open>The tags predicate\<close>

lemma like_percent: "like (CHR ''%'' # p) s \<longleftrightarrow> (\<exists>u v. s = u @ v \<and> like p v)"
proof (induction s)
  case Nil
  then show ?case by simp
next
  case (Cons c cs)
  have "(\<exists>u v. c # cs = u @ v \<and> like p v) \<longleftrightarrow> like p (c # cs) \<or> (\<exists>u v. cs = u @ v \<and> like p v)"
    by (auto simp: Cons_eq_append_conv)
  with Cons show ?case by simp
qed

lemma like_only_percent: "like ''%'' s"
  by (induction s) simp_all

lemma like_plain_prefix:
  "CHR ''%'' \<notin> set t \<Longrightarrow> CHR ''_'' \<notin> set t \<Longrightarrow>
   like (t @ p) s \<longleftrightarrow> (\<exists>a b. s = a @ b \<and> map lower a = map lower t \<and> like p b)"
proof (induction t arbitrary: s)
  case Nil
  then show ?case by simp
next
  case (Cons x xs)
  show ?case
  proof (cases s)
    case Nil
    then show ?thesis using Cons.prems by auto
  next
    case (Cons c cs)
    have "like ((x # xs) @ p) (c # cs) \<longleftrightarrow> lower x = lower c \<and> like (xs @ p) cs"
      using Cons.prems by auto
    also have "\<dots> \<longleftrightarrow> lower x = lower c \<and>
        (\<exists>a b. cs = a @ b \<and> map lower a = map lower xs \<and> like p b)"
      using Cons.IH Cons.prems by simp
    also have "\<dots> \<longleftrightarrow> (\<exists>a b. c # cs = a @ b \<and> map lower a = map lower (x # xs) \<and> like p b)"
    proof
      assume "lower x = lower c \<and> (\<exists>a b. cs = a @ b \<and> map lower a = map lower xs \<and> like p b)"
      then obtain a b where "lower x = lower c" "cs = a @ b" "map lower a = map lower xs" "like p b"
        by blast
      then have "c # cs = (c # a) @ b \<and> map lower (c # a) = map lower (x # xs) \<and> like p b"
        by simp
      then show "\<exists>a b. c # cs = a @ b \<and> map lower a = map lower (x # xs) \<and> like p b"
        by blast
    next
      assume "\<exists>a b. c # cs = a @ b \<and> map lower a = map lower (x # xs) \<and> like p b"
      then obtain a b where ab: "c # cs = a @ b" "map lower a = map lower (x # xs)" "like p b"
        by blast
      from ab(2) obtain a0 a' where a: "a = a0 # a'" by (cases a) auto
      with ab have "a0 = c" "cs = a' @ b" "lower a0 = lower x" "map lower a' = map lower xs"
        by simp_all
      with ab(3) show "lower x = lower c \<and>
          (\<exists>a b. cs = a @ b \<and> map lower a = map lower xs \<and> like p b)"
        by auto
    qed
    finally show ?thesis using Cons by simp
  qed
qed

lemma like_contains_plain:
  assumes "CHR ''%'' \<notin> set tag" "CHR ''_'' \<notin> set tag"
  shows "like (contains_pattern tag) s \<longleftrightarrow>
     (\<exists>u a v. s = u @ a @ v \<and> map lower a = map lower tag)"
proof -
  have "like (contains_pattern tag) s \<longleftrightarrow> (\<exists>u w. s = u @ w \<and> like (tag @ ''%'') w)"
    by (simp add: contains_pattern_def like_percent)
  also have "\<dots> \<longleftrightarrow> (\<exists>u w. s = u @ w \<and> (\<exists>a b. w = a @ b \<and> map lower a = map lower tag))"
    using like_plain_prefix [OF assms, of "''%''"] by (simp add: like_only_percent)
  also have "\<dots> \<longleftrightarrow> (\<exists>u a v. s = u @ a @ v \<and> map lower a = map lower tag)"
    by blast
  finally show ?thesis .
qed

lemma like_same_prefix: "like p b \<Longrightarrow> like (t @ p) (t @ b)"
proof (induction t)
  case Nil
  then show ?case by simp
next
  case (Cons x xs)
  then have "like (xs @ p) (xs @ b)" by simp
  moreover from this have "like (CHR ''%'' # xs @ p) (xs @ b)"
    unfolding like_percent by (metis append_Nil)
  ultimately show ?case by simp
qed

lemma like_contains_self: "like (contains_pattern tag) (u @ tag @ v)"
proof -
  have "like (tag @ ''%'') (tag @ v)" by (rule like_same_prefix) (rule like_only_percent)
  then show ?thesis
    unfolding contains_pattern_def by (simp add: like_percent) blast
qed

lemma split_commas_prefix: "split_commas s = w # ws \<Longrightarrow> \<exists>v. s = w @ v"
  by (induction s arbitrary: w ws) (auto split: if_splits list.splits)

lemma split_commas_piece: "tag \<in> set (split_commas s) \<Longrightarrow> \<exists>u v. s = u @ tag @ v"
proof (induction s arbitrary: tag)
  case Nil
  then show ?case by simp
next
  case (Cons c cs)
  show ?case
  proof (cases "c = CHR '',''")
    case True
    with Cons.prems have "tag = [] \<or> tag \<in> set (split_commas cs)" by simp
    then show ?thesis
    proof
      assume "tag = []"
      then have "c # cs = [] @ tag @ (c # cs)" by simp
      then show ?thesis by blast
    next
      assume "tag \<in> set (split_commas cs)"
      then obtain u v where "cs = u @ tag @ v" using Cons.IH by blast
      then have "c # cs = (c # u) @ tag @ v" by simp
      then show ?thesis by blast
    qed
  next
    case False
    show ?thesis
    proof (cases "split_commas cs")
      case Nil
      with False Cons.prems have "tag = [c]" by simp
      then have "c # cs = [] @ tag @ cs" by simp
      then show ?thesis by blast
    next
      case (Cons w ws)
      with False Cons.prems have "tag = c # w \<or> tag \<in> set ws" by simp
      then show ?thesis
      proof
        assume t: "tag = c # w"
        obtain v where "cs = w @ v" using split_commas_prefix [OF Cons] by blast
        with t have "c # cs = [] @ tag @ v" by simp
        then show ?thesis by blast
      next
        assume "tag \<in> set ws"
        then have "tag \<in> set (split_commas cs)" using Cons by simp
        then obtain u v where "cs = u @ tag @ v" using Cons.IH by blast
        then have "c # cs = (c # u) @ tag @ v" by simp
        then show ?thesis by blast
      qed
    qed
  qed
qed

lemma tag_in_set_matches:
  assumes "tag \<in> set tgs" "tag \<in> tag_set r"
  shows "tags_match tgs r"
proof -
  from assms(2) obtain s where s: "r Tags = Some s" "tag \<in> set (split_commas s)"
    by (auto simp: tag_set_def split: option.splits if_splits)
  then obtain u v where "s = u @ tag @ v" using split_commas_piece by blast
  then have "like (contains_pattern tag) s" using like_contains_self by simp
  with s assms(1) show ?thesis
    by (auto simp: tags_match_def list_ex_iff col_like_def)
qed

lemma demo_tags_query:
  "map (\<lambda>r. r Id) (get_tasks demo_store (no_filters\<lparr>f_tags := [''work'']\<rparr>) Due_date False)
     = [Some ''t1'', Some ''t3'']"
  by (simp add: get_tasks_def order_by_def where_clause_def no_filters_def truthy_def
      tags_match_def col_like_def contains_pattern_def demo_store_def mk_row_def lower_def)

text \<open>
  C7, as stated: a task matches the tags predicate exactly when its tag set contains
  one of the given tags. The predicate is \<^verbatim>\<open>tags LIKE '%tag%'\<close> on the comma-joined
  text, so the filter \<^verbatim>\<open>work\<close> also selects a task whose only tag is
  \<^verbatim>\<open>homework\<close>.
\<close>

theorem tags_filter_matches_homework:
  "tags_match [''work''] homework_row \<and>
   where_clause (no_filters\<lparr>f_tags := [''work'']\<rparr>) homework_row \<and>
   tag_set homework_row = {''homework''} \<and>
   ''work'' \<notin> tag_set homework_row"
  by (simp add: tags_match_def col_like_def contains_pattern_def homework_row_def mk_row_def
      tag_set_def where_clause_def no_filters_def truthy_def lower_def)

text \<open>
  C7, amended. A task matches the tags predicate exactly when its tags text is not
  NULL and matches the pattern \<^verbatim>\<open>%tag%\<close> for one of the given tags; for a tag without
  \<^verbatim>\<open>%\<close> and \<^verbatim>\<open>_\<close> that is: the text has a piece equal to the tag up to the case
  of ASCII letters. Every task whose tag set contains one of the given tags matches.
  With a non-empty tag list the predicate is one conjunct of the WHERE clause, beside
  the conjuncts of the other filters.
\<close>

theorem tags_filter_matches_substrings:
  "(tags_match tgs r \<longleftrightarrow>
      (\<exists>tag \<in> set tgs. \<exists>s. r Tags = Some s \<and> like (contains_pattern tag) s)) \<and>
   (CHR ''%'' \<notin> set tag \<and> CHR ''_'' \<notin> set tag \<longrightarrow>
      (like (contains_pattern tag) s \<longleftrightarrow>
         (\<exists>u a v. s = u @ a @ v \<and> map lower a = map lower tag))) \<and>
   (tag \<in> set tgs \<and> tag \<in> tag_set r \<longrightarrow> tags_match tgs r) \<and>
   (f_tags f \<noteq> [] \<longrightarrow>
      (where_clause f r \<longleftrightarrow> tags_match (f_tags f) r \<and> where_clause (f\<lparr>f_tags := []\<rparr>) r))"
proof (intro conjI impI)
  show "tags_match tgs r \<longleftrightarrow>
      (\<exists>tag \<in> set tgs. \<exists>s. r Tags = Some s \<and> like (contains_pattern tag) s)"
    by (auto simp: tags_match_def list_ex_iff col_like_def split: option.splits)
next
  assume "CHR ''%'' \<notin> set tag \<and> CHR ''_'' \<notin> set tag"
  then show "like (contains_pattern tag) s \<longleftrightarrow>
         (\<exists>u a v. s = u @ a @ v \<and> map lower a = map lower tag)"
    using like_contains_plain by blast
next
  assume "tag \<in> set tgs \<and> tag \<in> tag_set r"
  then show "tags_match tgs r" using tag_in_set_matches by blast
next
  assume "f_tags f \<noteq> []"
  then show "where_clause f r \<longleftrightarrow> tags_match (f_tags f) r \<and> where_clause (f\<lparr>f_tags := []\<rparr>) r"
    by (auto simp: where_clause_def)
qed

text \<open>
  The example store has the tag sets \<open>{work, urgent}\<close>, \<open>{home}\<close>, \<open>{work}\<close>: the
  filter \<^verbatim>\<open>work\<close> returns the first and the third task.
\<close>

theorem tags_filter_matches_substrings_witness:
  "''work'' \<in> set [''work''] \<and> ''work'' \<in> tag_set (tasks demo_store ! 0) \<and>
   tags_match [''work''] (tasks demo_store ! 0) \<and>
   CHR ''%'' \<notin> set ''work'' \<and> CHR ''_'' \<notin> set ''work'' \<and>
   like (contains_pattern ''work'') ''work,urgent'' \<and>
   f_tags (no_filters\<lparr>f_tags := [''work'']\<rparr>) \<noteq> [] \<and>
   where_clause (no_filters\<lparr>f_tags := [''work'']\<rparr>) (tasks demo_store ! 0) \<and>
   map (\<lambda>r. tag_set r) (tasks demo_store) = [{''work'', ''urgent''}, {''home''}, {''work''}] \<and>
   map (\<lambda>r. r Id) (get_tasks demo_store (no_filters\<lparr>f_tags := [''work'']\<rparr>) Due_date False)
     = [Some ''t1'', Some ''t3'']"
proof -
  have a: "''work'' \<in> set [''work''] \<and> ''work'' \<in> tag_set (tasks demo_store ! 0)"
    by (simp add: demo_store_def mk_row_def tag_set_def)
  have b: "CHR ''%'' \<notin> set ''work'' \<and> CHR ''_'' \<notin> set ''work''" by simp
  have c: "f_tags (no_filters\<lparr>f_tags := [''work'']\<rparr>) \<noteq> []" by simp
  have d: "''work,urgent'' = [] @ ''work'' @ '',urgent'' \<and> map lower ''work'' = map lower ''work''"
    by simp
  have e: "where_clause (no_filters\<lparr>f_tags := [''work'']\<rparr>\<lparr>f_tags := []\<rparr>) (tasks demo_store ! 0)"
    by (simp add: where_clause_def no_filters_def truthy_def)
  have f: "map (\<lambda>r. tag_set r) (tasks demo_store) = [{''work'', ''urgent''}, {''home''}, {''work''}]"
    by (auto simp: demo_store_def mk_row_def tag_set_def)
  note t = tags_filter_matches_substrings [of "[''work'']" "tasks demo_store ! 0" "''work''"
      "''work,urgent''" "no_filters\<lparr>f_tags := [''work'']\<rparr>"]
  from t a have m: "tags_match [''work''] (tasks demo_store ! 0)" by blast
  from t b d have l: "like (contains_pattern ''work'') ''work,urgent''" by blast
  from t c m e have w: "where_clause (no_filters\<lparr>f_tags := [''work'']\<rparr>) (tasks demo_store ! 0)"
    by simp
  from a m b l c w f demo_tags_query show ?thesis by blast
qed

subsection \<open>The order of ISO texts\<close>









lemma length_digs [simp]: "length (digs k n) = k"
  by (induction k arbitrary: n) simp_all















subsection \<open>The exact effect of a scan that completes\<close>

lemma next_day_valid:
  "valid_datetime d \<Longrightarrow> year (next_day d) \<le> 9999 \<Longrightarrow> valid_datetime (next_day d)"
  by (auto simp: valid_datetime_def next_day_def days_in_month_def)

lemma add_days_valid: "valid_datetime d \<Longrightarrow> add_days d n = Inr d' \<Longrightarrow> valid_datetime d'"
proof (induction n arbitrary: d)
  case 0
  then show ?case by simp
next
  case (Suc n)
  from Suc.prems(2) have y: "year (next_day d) \<le> 9999" and r: "add_days (next_day d) n = Inr d'"
    by (auto split: if_splits)
  from Suc.IH [OF next_day_valid [OF Suc.prems(1) y] r] show ?case .
qed

lemma replace_day_valid: "valid_datetime d \<Longrightarrow> replace_day d n = Inr d' \<Longrightarrow> valid_datetime d'"
  by (auto simp: replace_day_def valid_datetime_def split: if_splits)


lemma calculate_next_occurrence_valid:
  assumes v: "valid_datetime d" and c: "calculate_next_occurrence d recurrence = Inr d'"
  shows "valid_datetime d'"
proof (cases "recurrence = Some ''daily'' \<or> recurrence = Some ''weekly''")
  case True
  have "calculate_next_occurrence d (Some ''daily'') = add_days d 1"
    and "calculate_next_occurrence d (Some ''weekly'') = add_days d 7"
    by (simp_all add: calculate_next_occurrence_def del: One_nat_def)
  with True c have "add_days d 1 = Inr d' \<or> add_days d 7 = Inr d'" by auto
  with v show ?thesis using add_days_valid by blast
next
  case False
  show ?thesis
  proof (cases "recurrence = Some ''monthly''")
    case True
    with False c obtain first later where
      f: "replace_day d 1 = Inr first" and l: "add_days first 32 = Inr later"
      and r: "replace_day later (day d) = Inr d'"
      by (simp add: calculate_next_occurrence_def split: sum.splits)
    from replace_day_valid [OF v f] have "valid_datetime first" .
    from add_days_valid [OF this l] have "valid_datetime later" .
    from replace_day_valid [OF this r] show ?thesis .
  next
    case m: False
    with False c have "d' = d" by (simp add: calculate_next_occurrence_def)
    with v show ?thesis by simp
  qed
qed


lemma rolled_not_due:
  assumes "fromisoformat s = Inr due" "calculate_next_occurrence due recurrence = Inr next_due"
    "\<not> dt_le next_due now" "r' Due_date = Some (isoformat next_due)"
  shows "\<not> due_for_rollover now r'"
proof -
  have "valid_datetime next_due"
    using calculate_next_occurrence_valid [OF fromisoformat_valid [OF assms(1)] assms(2)] .
  then have "fromisoformat (isoformat next_due) = Inr next_due" by (rule fromisoformat_isoformat)
  with assms(3,4) show ?thesis by (simp add: due_for_rollover_def)
qed

























subsection \<open>Two scans in a row\<close>




subsection \<open>Tasks without a recurrence rule\<close>




subsection \<open>The overdue post-filter\<close>





end
